theory Spec2Isabelle
  imports Main "HOL-Library.Word"
begin

section \<open>The file-backed store of THD (torch/lib/THD/proto/FileStore.cpp)\<close>

text \<open>
  The store keeps key/value records in one shared log file.  The model follows the
  source function by function.

  \<^item> A \<open>std::string\<close> and the contents of the file are lists of 8-bit characters.
  \<^item> The file at \<open>path_\<close> is a value of type \<open>bytes option\<close>: \<open>None\<close> when no file
    exists at the path.
  \<^item> An open descriptor (class \<open>File\<close>) is a record of the file's bytes and the
    descriptor's offset.  \<open>read(2)\<close> returns the bytes between the offset and the end
    of the file, at most as many as asked for; \<open>write(2)\<close> writes at the offset, at
    most \<open>0x7ffff000\<close> bytes in one call.
  \<^item> Every operation of \<open>FileStore\<close> holds the \<open>flock(2)\<close> lock from right after the
    open to the end of its scope, so one call of \<open>set\<close>, \<open>add\<close>, \<open>check\<close>, and one
    iteration of the loop of \<open>get\<close>, is one atomic step on the file.
  \<^item> An exception of the source is an \<open>error\<close> value; the state of the instance at the
    throw is returned with it, since \<open>pos_\<close> and \<open>cache_\<close> keep what was assigned.
  \<^item> \<open>off_t\<close> and the sizes of strings are unbounded numbers; the two narrow integers
    of the source, the \<open>uint32_t\<close> length prefix and \<open>int pos_\<close>, are cut to their
    width where the source assigns to them.  Running out of memory, signals (\<open>EINTR\<close>)
    and failures of the lock are left out.
\<close>

subsection \<open>Bytes and the length prefix\<close>

type_synonym bytes = string

text \<open>\<open>uint32_t len\<close> in memory, least significant byte first (the byte order of x86).\<close>

definition bytes_of_u32 :: "32 word \<Rightarrow> bytes" where
  "bytes_of_u32 w =
     [char_of (unat w), char_of (unat w div 256),
      char_of (unat w div 65536), char_of (unat w div 16777216)]"

definition u32_of_bytes :: "bytes \<Rightarrow> 32 word" where
  "u32_of_bytes bs = of_nat (foldr (\<lambda>c n. of_char c + 256 * n) bs 0)"

subsection \<open>Errors\<close>

text \<open>
  \<open>IoError\<close> is \<open>std::system_error\<close>, \<open>TimeoutError\<close> the \<open>std::runtime_error\<close> of
  \<open>wait\<close>.  \<open>Indeterminate\<close> marks the one place where the source has no defined
  behaviour: \<open>readString\<close> uses \<open>len\<close> after a \<open>read\<close> that filled fewer than its four
  bytes.
\<close>

datatype error = IoError | TimeoutError | Indeterminate

subsection \<open>class File\<close>

record File =
  contents :: bytes
  offset :: nat

datatype oflag = O_RDONLY | O_RDWR_CREAT

datatype whence = SEEK_SET | SEEK_CUR | SEEK_END

text \<open>\<open>File::File\<close>: \<open>open(2)\<close>; without \<open>O_CREAT\<close> a missing file is \<open>ENOENT\<close>.\<close>

definition open_file :: "bytes option \<Rightarrow> oflag \<Rightarrow> error + File" where
  "open_file fs flags =
     (case fs of
        Some bs \<Rightarrow> Inr \<lparr>contents = bs, offset = 0\<rparr>
      | None \<Rightarrow>
          (case flags of
             O_RDONLY \<Rightarrow> Inl IoError
           | O_RDWR_CREAT \<Rightarrow> Inr \<lparr>contents = [], offset = 0\<rparr>))"

text \<open>\<open>File::seek\<close>: \<open>lseek(2)\<close> fails on a negative target, and \<open>SYSASSERT(rv)\<close> throws.\<close>

definition seek :: "File \<Rightarrow> int \<Rightarrow> whence \<Rightarrow> error + (int \<times> File)" where
  "seek f off wh =
     (let target =
        (case wh of
           SEEK_SET \<Rightarrow> off
         | SEEK_CUR \<Rightarrow> int (offset f) + off
         | SEEK_END \<Rightarrow> int (length (contents f)) + off)
      in if target < 0 then Inl IoError else Inr (target, f\<lparr>offset := nat target\<rparr>))"

definition tell :: "File \<Rightarrow> error + (int \<times> File)" where
  "tell f = seek f 0 SEEK_CUR"

text \<open>\<open>File::size\<close>: remember the offset, seek to the end, seek back.\<close>

definition size_file :: "File \<Rightarrow> error + (int \<times> File)" where
  "size_file f =
     (case tell f of
        Inl e \<Rightarrow> Inl e
      | Inr (p, f1) \<Rightarrow>
          (case seek f1 0 SEEK_END of
             Inl e \<Rightarrow> Inl e
           | Inr (sz, f2) \<Rightarrow>
               (case seek f2 p SEEK_SET of
                  Inl e \<Rightarrow> Inl e
                | Inr (_, f3) \<Rightarrow> Inr (sz, f3))))"

text \<open>
  \<open>read(fd, buf, n)\<close> and \<open>write(fd, buf, n)\<close> on a regular file.  A write at an offset
  past the end fills the gap with zero bytes.  One call of \<open>write\<close> transfers at most
  \<open>0x7ffff000\<close> bytes (2147479552, the limit of Linux) and returns the count, which
  \<open>writeString\<close> does not look at: the rest of a longer buffer is not written.
  Neither call sets \<open>errno\<close> here, and \<open>SYSCHECK\<close> throws only when \<open>errno < 0\<close>,
  which no call produces: the macro is a no-op around them.
\<close>

definition read_bytes :: "File \<Rightarrow> nat \<Rightarrow> bytes \<times> File" where
  "read_bytes f n =
     (let got = take n (drop (offset f) (contents f))
      in (got, f\<lparr>offset := offset f + length got\<rparr>))"

definition write_bytes :: "File \<Rightarrow> bytes \<Rightarrow> File" where
  "write_bytes f bs =
     (let written = take 2147479552 bs
      in f\<lparr>contents :=
             take (offset f) (contents f) @ replicate (offset f - length (contents f)) (CHR 0x00)
               @ written @ drop (offset f + length written) (contents f),
           offset := offset f + length written\<rparr>)"

text \<open>\<open>File::writeString\<close>: \<open>uint32_t len = str.size()\<close> keeps the low 32 bits.\<close>

definition writeString :: "File \<Rightarrow> bytes \<Rightarrow> File" where
  "writeString f str =
     (let len = (of_nat (length str) :: 32 word);
          f1 = write_bytes f (bytes_of_u32 len)
      in write_bytes f1 (take (unat len) str))"

text \<open>
  \<open>File::readString\<close>: the buffer \<open>std::vector<char> buf(len)\<close> starts as \<open>len\<close> zero
  bytes, the second \<open>read\<close> overwrites as many of them as the file still holds, and the
  whole buffer is assigned to the string.
\<close>

definition readString :: "File \<Rightarrow> error + (bytes \<times> File)" where
  "readString f =
     (let (raw, f1) = read_bytes f 4
      in if length raw < 4 then Inl Indeterminate
         else
           (let len = unat (u32_of_bytes raw);
                (got, f2) = read_bytes f1 len
            in Inr (got @ replicate (len - length got) (CHR 0x00), f2)))"

subsection \<open>class FileStore\<close>

text \<open>\<open>int pos_\<close> and \<open>std::map<std::string, std::string> cache_\<close>.\<close>

record FileStore =
  pos :: int
  cache :: "bytes \<rightharpoonup> bytes"

definition FileStore_new :: FileStore where
  "FileStore_new = \<lparr>pos = 0, cache = Map.empty\<rparr>"

text \<open>The conversion of \<open>off_t\<close> to \<open>int\<close> in \<open>pos_ = file.tell()\<close>.\<close>

definition to_int32 :: "int \<Rightarrow> int" where
  "to_int32 x = signed_take_bit 31 x"

text \<open>
  The loop \<open>while (size > pos_) { readString(tmpKey); readString(tmpValue);
  cache_[tmpKey] = tmpValue; pos_ = file.tell(); }\<close>, written out three times in the
  source (in \<open>get\<close>, \<open>add\<close> and \<open>check\<close>).  The result is the exception thrown, if
  any, the instance and the descriptor.
\<close>

lemma read_bytes_contents: "read_bytes f n = (got, f') \<Longrightarrow> contents f' = contents f"
  by (auto simp: read_bytes_def Let_def)

lemma read_bytes_offset:
  "read_bytes f n = (got, f') \<Longrightarrow> offset f' = offset f + length got"
  by (auto simp: read_bytes_def Let_def)

lemma read_bytes_length:
  "read_bytes f n = (got, f') \<Longrightarrow> length got = min n (length (contents f) - offset f)"
  by (auto simp: read_bytes_def Let_def)

lemma readString_advances:
  assumes "readString f = Inr (s, f')"
  shows "contents f' = contents f \<and> offset f + 4 \<le> offset f'
         \<and> offset f' \<le> length (contents f)"
proof -
  obtain raw f1 where r1: "read_bytes f 4 = (raw, f1)"
    by (cases "read_bytes f 4")
  with assms have len4: "length raw = 4"
    by (auto simp: readString_def Let_def split: if_splits prod.splits
             dest: read_bytes_length)
  obtain got f2 where r2: "read_bytes f1 (unat (u32_of_bytes raw)) = (got, f2)"
    by (cases "read_bytes f1 (unat (u32_of_bytes raw))")
  from assms r1 r2 len4 have f': "f' = f2"
    by (simp add: readString_def Let_def)
  from r1 len4 have o1: "offset f1 = offset f + 4" "contents f1 = contents f"
    "offset f + 4 \<le> length (contents f)"
    using read_bytes_offset [OF r1] read_bytes_contents [OF r1] read_bytes_length [OF r1]
    by auto
  from r2 have o2: "offset f2 = offset f1 + length got" "contents f2 = contents f1"
    "length got \<le> length (contents f1) - offset f1"
    using read_bytes_offset [OF r2] read_bytes_contents [OF r2] read_bytes_length [OF r2]
    by auto
  from o1 o2 f' show ?thesis by auto
qed

lemma tell_same: "tell f = Inr (p, f') \<Longrightarrow> f' = f \<and> p = int (offset f)"
  by (auto simp: tell_def seek_def Let_def split: if_splits)

function read_records :: "int \<Rightarrow> FileStore \<Rightarrow> File \<Rightarrow> error option \<times> FileStore \<times> File" where
  "read_records sz st f =
     (if sz > pos st then
        (case readString f of
           Inl e \<Rightarrow> (Some e, st, f)
         | Inr (tmpKey, f1) \<Rightarrow>
             (case readString f1 of
                Inl e \<Rightarrow> (Some e, st, f1)
              | Inr (tmpValue, f2) \<Rightarrow>
                  (case tell f2 of
                     Inl e \<Rightarrow> (Some e, st\<lparr>cache := (cache st)(tmpKey \<mapsto> tmpValue)\<rparr>, f2)
                   | Inr (p, f3) \<Rightarrow>
                       read_records sz
                         (st\<lparr>cache := (cache st)(tmpKey \<mapsto> tmpValue), pos := to_int32 p\<rparr>)
                         f3)))
      else (None, st, f))"
  by pat_completeness auto
termination
proof (relation "measure (\<lambda>(sz, st, f). length (contents f) - offset f)", goal_cases)
  case 1
  show ?case by simp
next
  case (2 sz st f x2 tmpKey f1 y2 tmpValue f2 z2 p f3)
  have a: "contents f1 = contents f \<and> offset f + 4 \<le> offset f1
           \<and> offset f1 \<le> length (contents f)"
    using 2 by (intro readString_advances [of f tmpKey f1]) simp
  have b: "contents f2 = contents f1 \<and> offset f1 + 4 \<le> offset f2
           \<and> offset f2 \<le> length (contents f1)"
    using 2 by (intro readString_advances [of f1 tmpValue f2]) simp
  have c: "f3 = f2"
    using 2 tell_same [of f2 p f3] by simp
  from a b c show ?case by simp arith
qed

declare read_records.simps [simp del]

text \<open>\<open>FileStore::set\<close>.\<close>

definition set_store ::
  "FileStore \<Rightarrow> bytes option \<Rightarrow> bytes \<Rightarrow> bytes \<Rightarrow> (error + unit) \<times> FileStore \<times> bytes option" where
  "set_store st fs name data =
     (case open_file fs O_RDWR_CREAT of
        Inl e \<Rightarrow> (Inl e, st, fs)
      | Inr file0 \<Rightarrow>
          (case seek file0 0 SEEK_END of
             Inl e \<Rightarrow> (Inl e, st, Some (contents file0))
           | Inr (_, f1) \<Rightarrow>
               (let f2 = writeString f1 name;
                    f3 = writeString f2 data
                in (Inr (), st, Some (contents f3)))))"

text \<open>
  \<open>FileStore::get\<close>.  The file is read only, so what other instances append while the
  loop runs is an input: the list \<open>world\<close> holds the state of the file at each
  iteration (each open under the shared lock).  The result is \<open>None\<close> when the loop is
  still running after the last of them.
\<close>

fun get :: "FileStore \<Rightarrow> bytes option list \<Rightarrow> bytes \<Rightarrow> (error + bytes) option \<times> FileStore" where
  "get st world key =
     (case cache st key of
        Some v \<Rightarrow> (Some (Inr v), st)
      | None \<Rightarrow>
          (case world of
             [] \<Rightarrow> (None, st)
           | fs # rest \<Rightarrow>
               (case open_file fs O_RDONLY of
                  Inl e \<Rightarrow> (Some (Inl e), st)
                | Inr file0 \<Rightarrow>
                    (case size_file file0 of
                       Inl e \<Rightarrow> (Some (Inl e), st)
                     | Inr (sz, f1) \<Rightarrow>
                         if sz = pos st then get st rest key
                         else
                           (case seek f1 (pos st) SEEK_SET of
                              Inl e \<Rightarrow> (Some (Inl e), st)
                            | Inr (_, f2) \<Rightarrow>
                                (case read_records sz st f2 of
                                   (Some e, st', _) \<Rightarrow> (Some (Inl e), st')
                                 | (None, st', _) \<Rightarrow> get st' rest key))))))"

declare get.simps [simp del]

text \<open>
  The two stream operations of \<open>add\<close> are the C++ standard library's, not this
  repository's.  \<open>sin >> ti\<close> on a \<open>std::stringstream\<close> with its default flags skips
  white space, takes an optional sign and the longest run of decimal digits, and stores
  0 when there is no digit (or leaves \<open>ti\<close>, which is 0, when the text is empty) and
  the nearest bound of \<open>int64_t\<close> when the number is out of range.  \<open>sout << ti\<close>
  writes the decimal text, with a minus sign for a negative number.
\<close>

definition isspace :: "char \<Rightarrow> bool" where
  "isspace c = ((of_char c :: nat) = 32 \<or> (9 \<le> (of_char c :: nat) \<and> (of_char c :: nat) \<le> 13))"

definition isdigit :: "char \<Rightarrow> bool" where
  "isdigit c = (48 \<le> (of_char c :: nat) \<and> (of_char c :: nat) \<le> 57)"

definition digits_value :: "string \<Rightarrow> nat" where
  "digits_value ds = foldl (\<lambda>n c. 10 * n + (of_char c - 48)) 0 ds"

definition extract_int64 :: "bytes \<Rightarrow> 64 word" where
  "extract_int64 s =
     (let s1 = dropWhile isspace s;
          neg = (s1 \<noteq> [] \<and> hd s1 = CHR ''-'');
          s2 = (if s1 \<noteq> [] \<and> (hd s1 = CHR ''-'' \<or> hd s1 = CHR ''+'') then tl s1 else s1);
          ds = takeWhile isdigit s2;
          v = (if neg then - int (digits_value ds) else int (digits_value ds))
      in if ds = [] then 0
         else if v > 9223372036854775807 then word_of_int 9223372036854775807
         else if v < - 9223372036854775808 then word_of_int (- 9223372036854775808)
         else word_of_int v)"

fun dec_digits :: "nat \<Rightarrow> string" where
  "dec_digits n =
     (if n < 10 then [char_of (48 + n)]
      else dec_digits (n div 10) @ [char_of (48 + n mod 10)])"

declare dec_digits.simps [simp del]

definition show_int64 :: "64 word \<Rightarrow> bytes" where
  "show_int64 w =
     (if sint w < 0 then CHR ''-'' # dec_digits (nat (- sint w)) else dec_digits (nat (sint w)))"

text \<open>
  \<open>FileStore::add\<close>.  \<open>cache_[key]\<close> inserts the empty string for a key the cache
  does not hold.  \<open>ti += i\<close> is the addition of \<open>int64_t\<close>, here with wrap-around.
  No seek stands between \<open>file.size()\<close>, which leaves the descriptor where it was (at
  0 after the open), and the two writes when the loop is not entered.
\<close>

definition add ::
  "FileStore \<Rightarrow> bytes option \<Rightarrow> bytes \<Rightarrow> 64 word
     \<Rightarrow> (error + 64 word) \<times> FileStore \<times> bytes option" where
  "add st fs key i =
     (case open_file fs O_RDWR_CREAT of
        Inl e \<Rightarrow> (Inl e, st, fs)
      | Inr file0 \<Rightarrow>
          (case size_file file0 of
             Inl e \<Rightarrow> (Inl e, st, Some (contents file0))
           | Inr (sz, f1) \<Rightarrow>
               (case (if sz > pos st then
                        (case seek f1 (pos st) SEEK_SET of
                           Inl e \<Rightarrow> (Some e, st, f1)
                         | Inr (_, f2) \<Rightarrow> read_records sz st f2)
                      else (None, st, f1)) of
                  (Some e, st1, f3) \<Rightarrow> (Inl e, st1, Some (contents f3))
                | (None, st1, f3) \<Rightarrow>
                    (let text = (case cache st1 key of None \<Rightarrow> [] | Some v \<Rightarrow> v);
                         st2 = st1\<lparr>cache := (cache st1)(key \<mapsto> text)\<rparr>;
                         ti = extract_int64 text + i;
                         f4 = writeString f3 key;
                         f5 = writeString f4 (show_int64 ti)
                     in (Inr ti, st2, Some (contents f5))))))"

text \<open>\<open>FileStore::check\<close>.\<close>

definition check ::
  "FileStore \<Rightarrow> bytes option \<Rightarrow> bytes list \<Rightarrow> (error + bool) \<times> FileStore" where
  "check st fs keys =
     (case open_file fs O_RDONLY of
        Inl e \<Rightarrow> (Inl e, st)
      | Inr file0 \<Rightarrow>
          (case size_file file0 of
             Inl e \<Rightarrow> (Inl e, st)
           | Inr (sz, f1) \<Rightarrow>
               (case (if sz \<noteq> pos st then
                        (case seek f1 (pos st) SEEK_SET of
                           Inl e \<Rightarrow> (Some e, st, f1)
                         | Inr (_, f2) \<Rightarrow> read_records sz st f2)
                      else (None, st, f1)) of
                  (Some e, st1, _) \<Rightarrow> (Inl e, st1)
                | (None, st1, _) \<Rightarrow>
                    (Inr (list_all (\<lambda>key. key \<in> dom (cache st1)) keys), st1))))"

text \<open>
  \<open>FileStore::wait\<close>.  \<open>steady_clock\<close> counts nanoseconds; \<open>start\<close> is the reading
  before the loop, and \<open>world\<close> gives, for each iteration, the state of the file that
  \<open>check\<close> sees and the reading of the clock after it.  \<open>duration_cast<seconds>\<close>
  truncates towards zero, and \<open>elapsed > timeout\<close> compares seconds with milliseconds
  in milliseconds.  \<open>kNoTimeout\<close> is declared in Store.hpp, which is not among the
  sources: it is a parameter.  Both timeouts are counts of milliseconds.
\<close>

definition duration_cast_seconds :: "int \<Rightarrow> int" where
  "duration_cast_seconds ns = sgn ns * (\<bar>ns\<bar> div 1000000000)"

fun wait ::
  "int \<Rightarrow> FileStore \<Rightarrow> int \<Rightarrow> (bytes option \<times> int) list \<Rightarrow> bytes list \<Rightarrow> int
     \<Rightarrow> (error + unit) option \<times> FileStore" where
  "wait kNoTimeout st start [] names timeout = (None, st)"
| "wait kNoTimeout st start ((fs, now) # world) names timeout =
     (case check st fs names of
        (Inl e, st1) \<Rightarrow> (Some (Inl e), st1)
      | (Inr True, st1) \<Rightarrow> (Some (Inr ()), st1)
      | (Inr False, st1) \<Rightarrow>
          (let elapsed = duration_cast_seconds (now - start)
           in if timeout \<noteq> kNoTimeout \<and> elapsed * 1000 > timeout
              then (Some (Inl TimeoutError), st1)
              else wait kNoTimeout st1 start world names timeout))"

subsection \<open>The log format, and the test's concurrent adds\<close>

text \<open>
  The bytes that \<open>writeString\<close> leaves in the file for a string: the prefix holds the
  low 32 bits of the length, and of that many bytes at most \<open>0x7ffff000\<close> follow.
\<close>

definition written_str :: "bytes \<Rightarrow> bytes" where
  "written_str s =
     bytes_of_u32 (of_nat (length s))
       @ take 2147479552 (take (unat (of_nat (length s) :: 32 word)) s)"

text \<open>
  The format of a string in the log, and the log that a sequence of records makes: the
  format the properties below are stated in.  A string is \<open>valid_str\<close> when its length
  fits the 32-bit prefix, and \<open>writable_str\<close> when one \<open>write\<close> transfers it whole;
  for a writable string \<open>writeString\<close> emits \<open>encode_str\<close>.
\<close>

definition encode_str :: "bytes \<Rightarrow> bytes" where
  "encode_str s =
     bytes_of_u32 (of_nat (length s)) @ take (unat (of_nat (length s) :: 32 word)) s"

definition encode_record :: "bytes \<times> bytes \<Rightarrow> bytes" where
  "encode_record kv = encode_str (fst kv) @ encode_str (snd kv)"

definition encode_log :: "(bytes \<times> bytes) list \<Rightarrow> bytes" where
  "encode_log recs = concat (map encode_record recs)"

definition valid_str :: "bytes \<Rightarrow> bool" where
  "valid_str s = (length s < 4294967296)"

definition writable_str :: "bytes \<Rightarrow> bool" where
  "writable_str s = (length s \<le> 2147479552)"

definition valid_records :: "(bytes \<times> bytes) list \<Rightarrow> bool" where
  "valid_records recs = list_all (\<lambda>kv. valid_str (fst kv) \<and> valid_str (snd kv)) recs"

definition log_of :: "bytes option \<Rightarrow> bytes" where
  "log_of fs = (case fs of None \<Rightarrow> [] | Some bs \<Rightarrow> bs)"

text \<open>
  FileStoreTest.cpp starts threads that each own a \<open>FileStore\<close> on the same path and
  call \<open>add\<close> in a loop.  Each \<open>add\<close> runs under the exclusive lock, so a run of the
  threads is the order in which the lock was granted: \<open>sched\<close> lists the index of the
  store that adds next.
\<close>

fun run_adds ::
  "FileStore list \<Rightarrow> bytes option \<Rightarrow> nat list \<Rightarrow> bytes \<Rightarrow> 64 word
     \<Rightarrow> FileStore list \<times> bytes option" where
  "run_adds stores fs [] key i = (stores, fs)"
| "run_adds stores fs (t # sched) key i =
     (case add (stores ! t) fs key i of
        (_, st', fs') \<Rightarrow> run_adds (stores[t := st']) fs' sched key i)"

text \<open>
  For the proofs about \<open>run_adds\<close>: the records that \<open>c\<close> increments of a fresh
  counter leave in the log, and what a store that takes part has seen of them.
\<close>

definition adds_log :: "bytes \<Rightarrow> nat \<Rightarrow> (bytes \<times> bytes) list" where
  "adds_log key c = map (\<lambda>j. (key, dec_digits j)) [1..<Suc c]"

definition view_ok :: "(bytes \<times> bytes) list \<Rightarrow> bytes \<Rightarrow> nat \<Rightarrow> FileStore \<Rightarrow> bool" where
  "view_ok recs key c st =
     (\<exists>seen unseen. recs @ adds_log key c = seen @ unseen
        \<and> pos st = int (length (encode_log seen))
        \<and> ((c = 0 \<and> seen = [] \<and> cache st key = None) \<or> (unseen \<noteq> [] \<and> 0 < c)))"

section \<open>Lemmas\<close>

subsection \<open>The length prefix and the codec\<close>

lemma length_bytes_of_u32 [simp]: "length (bytes_of_u32 w) = 4"
  by (simp add: bytes_of_u32_def)

lemma nat_bytes_roundtrip:
  fixes n :: nat
  assumes "n < 4294967296"
  shows "n mod 256 + 256 * (n div 256 mod 256 + 256 * (n div 65536 mod 256 + 256 * (n div 16777216 mod 256))) = n"
proof -
  have d2: "n div 65536 = n div 256 div 256"
    by (simp add: div_mult2_eq [symmetric])
  have d3: "n div 16777216 = n div 256 div 256 div 256"
    by (simp add: div_mult2_eq [symmetric])
  have small: "n div 16777216 < 256"
    using assms by simp
  have step: "\<And>m::nat. m mod 256 + 256 * (m div 256) = m"
    by simp
  have "n div 16777216 mod 256 = n div 16777216"
    using small by simp
  then show ?thesis
    unfolding d2 d3 by (simp only: step)
qed

lemma u32_of_bytes_of_u32 [simp]: "u32_of_bytes (bytes_of_u32 w) = w"
proof -
  have "unat w < 4294967296"
    using unsigned_less [of w, where 'a=nat] by simp
  then have "foldr (\<lambda>c n. of_char c + 256 * n) (bytes_of_u32 w) 0 = unat w"
    using nat_bytes_roundtrip [of "unat w"] by (simp add: bytes_of_u32_def)
  then show ?thesis
    by (simp add: u32_of_bytes_def)
qed

lemma unat_length_valid: "valid_str s \<Longrightarrow> unat (of_nat (length s) :: 32 word) = length s"
  by (simp add: valid_str_def unat_of_nat)

lemma encode_str_valid: "valid_str s \<Longrightarrow> encode_str s = bytes_of_u32 (of_nat (length s)) @ s"
  by (simp add: encode_str_def unat_length_valid)

lemma length_encode_str: "valid_str s \<Longrightarrow> length (encode_str s) = 4 + length s"
  by (simp add: encode_str_valid)

lemma encode_log_Nil [simp]: "encode_log [] = []"
  by (simp add: encode_log_def)

lemma encode_log_Cons: "encode_log (r # rs) = encode_record r @ encode_log rs"
  by (simp add: encode_log_def)

lemma encode_log_append: "encode_log (xs @ ys) = encode_log xs @ encode_log ys"
  by (simp add: encode_log_def)

lemma valid_records_append [simp]:
  "valid_records (xs @ ys) = (valid_records xs \<and> valid_records ys)"
  by (simp add: valid_records_def)

lemma writable_valid: "writable_str s \<Longrightarrow> valid_str s"
  by (simp add: writable_str_def valid_str_def)

lemma written_str_writable: "writable_str s \<Longrightarrow> written_str s = encode_str s"
  by (simp add: written_str_def encode_str_def writable_str_def unat_of_nat)

lemma length_written_prefix: "take 2147479552 (bytes_of_u32 w) = bytes_of_u32 w"
  by simp

lemma write_bytes_at_end:
  "offset f = length (contents f) \<Longrightarrow>
   write_bytes f bs =
     f\<lparr>contents := contents f @ take 2147479552 bs,
       offset := length (contents f) + length (take 2147479552 bs)\<rparr>"
  by (simp add: write_bytes_def Let_def)

lemma writeString_at_end:
  "offset f = length (contents f) \<Longrightarrow>
   writeString f s =
     f\<lparr>contents := contents f @ written_str s,
       offset := length (contents f) + length (written_str s)\<rparr>"
  by (simp add: writeString_def Let_def write_bytes_at_end written_str_def)

lemma readString_prefixed:
  assumes "contents f = pre @ bytes_of_u32 w @ post" and "offset f = length pre"
  shows "readString f =
           Inr (take (unat w) post @ replicate (unat w - length post) (CHR 0x00),
                f\<lparr>offset := length pre + 4 + min (unat w) (length post)\<rparr>)"
  using assms by (simp add: readString_def read_bytes_def Let_def min_def)

lemma readString_encoded:
  assumes "valid_str s" and "contents f = pre @ encode_str s @ post" and "offset f = length pre"
  shows "readString f = Inr (s, f\<lparr>offset := length pre + length (encode_str s)\<rparr>)"
proof -
  have c: "contents f = pre @ bytes_of_u32 (of_nat (length s)) @ (s @ post)"
    using assms by (simp add: encode_str_valid)
  show ?thesis
    using readString_prefixed [OF c assms(3)] assms(1)
    by (simp add: unat_length_valid length_encode_str)
qed

lemma to_int32_small: "0 \<le> x \<Longrightarrow> x < 2147483648 \<Longrightarrow> to_int32 x = x"
  unfolding to_int32_def by (rule signed_take_bit_int_eq_self) simp_all

subsection \<open>Replaying well-formed records\<close>

lemma tell_eq: "tell f = Inr (int (offset f), f)"
  by (simp add: tell_def seek_def)

lemma replay_Cons:
  "(m(k \<mapsto> v)) ++ map_of (rev rest) = m ++ map_of (rev ((k, v) # rest))"
  by (rule ext) (simp add: map_add_def split: option.splits)

lemma length_encode_record:
  "valid_str k \<Longrightarrow> valid_str v \<Longrightarrow> length (encode_record (k, v)) = 8 + length k + length v"
  by (simp add: encode_record_def length_encode_str)

lemma read_records_encoded:
  assumes "valid_records recs"
    and "contents f = pre @ encode_log recs"
    and "offset f = length pre"
    and "pos st = int (length pre)"
    and "sz = int (length (contents f))"
    and "length (contents f) < 2147483648"
  shows "read_records sz st f =
           (None, st\<lparr>cache := cache st ++ map_of (rev recs), pos := sz\<rparr>,
            f\<lparr>offset := length (contents f)\<rparr>)"
  using assms
proof (induction recs arbitrary: pre st f)
  case Nil
  then show ?case
    by (simp add: read_records.simps)
next
  case (Cons r rest)
  obtain k v where r: "r = (k, v)" by (cases r)
  from Cons.prems(1) r have vk: "valid_str k" and vv: "valid_str v" and vrest: "valid_records rest"
    by (simp_all add: valid_records_def)
  let ?f1 = "f\<lparr>offset := length pre + length (encode_str k)\<rparr>"
  let ?pre1 = "pre @ encode_str k"
  let ?pre2 = "pre @ encode_record (k, v)"
  let ?f2 = "f\<lparr>offset := length ?pre2\<rparr>"
  let ?st2 = "st\<lparr>cache := (cache st)(k \<mapsto> v), pos := int (length ?pre2)\<rparr>"
  have c0: "contents f = pre @ encode_str k @ (encode_str v @ encode_log rest)"
    using Cons.prems(2) r by (simp add: encode_log_Cons encode_record_def)
  have rs1: "readString f = Inr (k, ?f1)"
    by (rule readString_encoded [OF vk c0 Cons.prems(3)])
  have c1: "contents ?f1 = ?pre1 @ encode_str v @ encode_log rest"
    using c0 by simp
  have rs2: "readString ?f1 = Inr (v, ?f2)"
    using readString_encoded [OF vv c1] by (simp add: encode_record_def)
  have c2: "contents ?f2 = ?pre2 @ encode_log rest"
    using c0 by (simp add: encode_record_def)
  have len2: "length ?pre2 \<le> length (contents f)"
    using c2 by simp
  have gt: "sz > pos st"
    using Cons.prems(4,5) c0 vk by (simp add: length_encode_str)
  have t32: "to_int32 (int (length ?pre2)) = int (length ?pre2)"
    using len2 Cons.prems(6) by (intro to_int32_small) simp_all
  have step: "read_records sz st f = read_records sz ?st2 ?f2"
    using gt rs1 rs2 t32
    by (subst read_records.simps) (simp add: tell_eq)
  have ih: "read_records sz ?st2 ?f2 =
              (None, ?st2\<lparr>cache := cache ?st2 ++ map_of (rev rest), pos := sz\<rparr>,
               ?f2\<lparr>offset := length (contents ?f2)\<rparr>)"
    by (rule Cons.IH [OF vrest c2]) (use Cons.prems(5,6) in simp_all)
  have e: "?st2\<lparr>cache := cache ?st2 ++ map_of (rev rest), pos := sz\<rparr> =
           st\<lparr>cache := cache st ++ map_of (rev (r # rest)), pos := sz\<rparr>"
    using replay_Cons [of "cache st" k v rest] r by simp
  have o: "?f2\<lparr>offset := length (contents ?f2)\<rparr> = f\<lparr>offset := length (contents f)\<rparr>"
    by simp
  show ?case
    unfolding step ih e o ..
qed

subsection \<open>The operations on a log whose unread part is well formed\<close>

lemma open_file_RDWR: "open_file fs O_RDWR_CREAT = Inr \<lparr>contents = log_of fs, offset = 0\<rparr>"
  by (simp add: open_file_def log_of_def split: option.splits)

lemma open_file_RDONLY_Some: "open_file (Some bs) O_RDONLY = Inr \<lparr>contents = bs, offset = 0\<rparr>"
  by (simp add: open_file_def)

lemma open_file_RDONLY_None: "open_file None O_RDONLY = Inl IoError"
  by (simp add: open_file_def)

lemma size_file_eq: "size_file f = Inr (int (length (contents f)), f)"
  by (simp add: size_file_def tell_def seek_def)

lemma seek_SET: "0 \<le> p \<Longrightarrow> seek f p SEEK_SET = Inr (p, f\<lparr>offset := nat p\<rparr>)"
  by (simp add: seek_def)

lemma seek_END: "seek f 0 SEEK_END = Inr (int (length (contents f)), f\<lparr>offset := length (contents f)\<rparr>)"
  by (simp add: seek_def)

lemma set_store_written:
  "set_store st fs name data =
     (Inr (), st, Some (log_of fs @ written_str name @ written_str data))"
  by (simp add: set_store_def open_file_RDWR seek_END writeString_at_end Let_def)

lemma set_store_appends:
  "writable_str name \<Longrightarrow> writable_str data \<Longrightarrow>
   set_store st fs name data = (Inr (), st, Some (log_of fs @ encode_str name @ encode_str data))"
  by (simp add: set_store_written written_str_writable)

lemma check_encoded:
  assumes "valid_records unseen"
    and "bs = pre @ encode_log unseen"
    and "pos st = int (length pre)"
    and "length bs < 2147483648"
  shows "check st (Some bs) keys =
           (Inr (list_all (\<lambda>key. key \<in> dom (cache st ++ map_of (rev unseen))) keys),
            st\<lparr>cache := cache st ++ map_of (rev unseen), pos := int (length bs)\<rparr>)"
proof (cases "unseen = []")
  case True
  with assms show ?thesis
    by (simp add: check_def open_file_RDONLY_Some size_file_eq)
next
  case False
  let ?f = "\<lparr>contents = bs, offset = length pre\<rparr>"
  have rr: "read_records (int (length bs)) st ?f =
          (None, st\<lparr>cache := cache st ++ map_of (rev unseen), pos := int (length bs)\<rparr>,
           ?f\<lparr>offset := length (contents ?f)\<rparr>)"
    by (rule read_records_encoded [OF assms(1), of ?f pre]) (use assms in simp_all)
  from False have "encode_log unseen \<noteq> []"
    by (cases unseen) (auto simp: encode_log_Cons encode_record_def encode_str_def bytes_of_u32_def)
  with assms have ne: "int (length bs) \<noteq> pos st"
    by simp
  show ?thesis
    using ne rr assms(3)
    by (simp add: check_def open_file_RDONLY_Some size_file_eq seek_SET)
qed

lemma get_cached: "cache st key = Some v \<Longrightarrow> get st world key = (Some (Inr v), st)"
  by (simp add: get.simps)

lemma get_encoded:
  assumes "valid_records unseen"
    and "bs = pre @ encode_log unseen"
    and "pos st = int (length pre)"
    and "length bs < 2147483648"
    and "cache st key = None"
    and "map_of (rev unseen) key = Some v"
  shows "get st (Some bs # world) key =
           (Some (Inr v),
            st\<lparr>cache := cache st ++ map_of (rev unseen), pos := int (length bs)\<rparr>)"
proof -
  let ?f = "\<lparr>contents = bs, offset = length pre\<rparr>"
  let ?st' = "st\<lparr>cache := cache st ++ map_of (rev unseen), pos := int (length bs)\<rparr>"
  have rr: "read_records (int (length bs)) st ?f = (None, ?st', ?f\<lparr>offset := length (contents ?f)\<rparr>)"
    by (rule read_records_encoded [OF assms(1), of ?f pre]) (use assms in simp_all)
  from assms(6) have "unseen \<noteq> []" by auto
  then have "encode_log unseen \<noteq> []"
    by (cases unseen) (auto simp: encode_log_Cons encode_record_def encode_str_def bytes_of_u32_def)
  with assms have ne: "int (length bs) \<noteq> pos st"
    by simp
  have hit: "cache ?st' key = Some v"
    using assms(6) by simp
  have "get st (Some bs # world) key = get ?st' world key"
    using ne rr assms(3,5)
    by (subst get.simps) (simp add: open_file_RDONLY_Some size_file_eq seek_SET)
  also have "\<dots> = (Some (Inr v), ?st')"
    by (rule get_cached [OF hit])
  finally show ?thesis .
qed

lemma add_written:
  assumes "valid_records unseen"
    and "log_of fs = pre @ encode_log unseen"
    and "pos st = int (length pre)"
    and "length (log_of fs) < 2147483648"
    and "unseen \<noteq> [] \<or> pre = []"
  shows "add st fs key i =
           (let c = cache st ++ map_of (rev unseen);
                text = (case c key of None \<Rightarrow> [] | Some v \<Rightarrow> v);
                r = extract_int64 text + i
            in (Inr r, st\<lparr>cache := c(key \<mapsto> text), pos := int (length (log_of fs))\<rparr>,
                Some (log_of fs @ written_str key @ written_str (show_int64 r))))"
proof (cases "unseen = []")
  case True
  with assms have e: "log_of fs = []" "pos st = 0" by simp_all
  show ?thesis
    using True e
    by (simp add: add_def open_file_RDWR size_file_eq Let_def writeString_at_end)
next
  case False
  let ?bs = "log_of fs"
  let ?f = "\<lparr>contents = ?bs, offset = length pre\<rparr>"
  let ?st' = "st\<lparr>cache := cache st ++ map_of (rev unseen), pos := int (length ?bs)\<rparr>"
  have rr: "read_records (int (length ?bs)) st ?f = (None, ?st', ?f\<lparr>offset := length (contents ?f)\<rparr>)"
    by (rule read_records_encoded [OF assms(1), of ?f pre]) (use assms in simp_all)
  from False have "encode_log unseen \<noteq> []"
    by (cases unseen) (auto simp: encode_log_Cons encode_record_def encode_str_def bytes_of_u32_def)
  with assms have gt: "int (length ?bs) > pos st"
    by simp
  show ?thesis
    using gt rr assms(3)
    by (simp add: add_def open_file_RDWR size_file_eq seek_SET Let_def writeString_at_end)
qed

subsection \<open>Decimal text\<close>

lemma digit_code: "d < 10 \<Longrightarrow> (of_char (char_of (48 + d :: nat)) :: nat) = 48 + d"
  by simp

lemma dec_digits_all_digits: "list_all isdigit (dec_digits n)"
proof (induction n rule: dec_digits.induct)
  case (1 n)
  show ?case
  proof (cases "n < 10")
    case True
    then show ?thesis
      by (subst dec_digits.simps) (simp add: isdigit_def)
  next
    case False
    have "n mod 10 < 10" by simp
    then have "isdigit (char_of (48 + n mod 10))"
      unfolding isdigit_def using digit_code [of "n mod 10"] by simp
    with 1 False show ?thesis
      by (subst dec_digits.simps) simp
  qed
qed

lemma dec_digits_nonempty: "dec_digits n \<noteq> []"
  by (subst dec_digits.simps) simp

lemma digits_value_snoc:
  "digits_value (ds @ [c]) = 10 * digits_value ds + (of_char c - 48)"
  by (simp add: digits_value_def)

lemma digits_value_dec_digits: "digits_value (dec_digits n) = n"
proof (induction n rule: dec_digits.induct)
  case (1 n)
  show ?case
  proof (cases "n < 10")
    case True
    then show ?thesis
      by (subst dec_digits.simps) (simp add: digits_value_def)
  next
    case False
    have "n mod 10 < 10" by simp
    then have "(of_char (char_of (48 + n mod 10)) :: nat) - 48 = n mod 10"
      using digit_code [of "n mod 10"] by simp
    with 1 False show ?thesis
      by (subst dec_digits.simps) (simp add: digits_value_snoc)
  qed
qed

lemma isdigit_not_space: "isdigit c \<Longrightarrow> \<not> isspace c"
  by (auto simp: isdigit_def isspace_def)

lemma isdigit_not_sign: "isdigit c \<Longrightarrow> c \<noteq> CHR ''-'' \<and> c \<noteq> CHR ''+''"
  by (auto simp: isdigit_def)

lemma hd_dec_digits: "isdigit (hd (dec_digits n))"
  using dec_digits_all_digits [of n] dec_digits_nonempty [of n]
  by (cases "dec_digits n") simp_all

lemma takeWhile_dec_digits: "takeWhile isdigit (dec_digits n) = dec_digits n"
  using dec_digits_all_digits [of n] by (simp add: list_all_iff)

lemma dropWhile_dec_digits: "dropWhile isspace (dec_digits n) = dec_digits n"
  using hd_dec_digits [of n] dec_digits_nonempty [of n]
  by (cases "dec_digits n") (simp_all add: isdigit_not_space)

lemma extract_dec_digits:
  "n \<le> 9223372036854775807 \<Longrightarrow> extract_int64 (dec_digits n) = word_of_int (int n)"
  using hd_dec_digits [of n] isdigit_not_sign [of "hd (dec_digits n)"]
  by (simp add: extract_int64_def Let_def dropWhile_dec_digits takeWhile_dec_digits
        dec_digits_nonempty digits_value_dec_digits)

lemma extract_minus_dec_digits:
  "n \<le> 9223372036854775808 \<Longrightarrow>
   extract_int64 (CHR ''-'' # dec_digits n) = word_of_int (- int n)"
  by (simp add: extract_int64_def Let_def isspace_def takeWhile_dec_digits
        dec_digits_nonempty digits_value_dec_digits)

lemma extract_show_int64: "extract_int64 (show_int64 w) = w"
proof (cases "sint w < 0")
  case True
  have "- sint w \<le> 9223372036854775808"
    using sint_ge [of w] by simp
  then have "nat (- sint w) \<le> 9223372036854775808" by simp
  from extract_minus_dec_digits [OF this] True show ?thesis
    by (simp add: show_int64_def)
next
  case False
  have "sint w \<le> 9223372036854775807"
    using sint_lt [of w] by simp
  then have "nat (sint w) \<le> 9223372036854775807" by simp
  from extract_dec_digits [OF this] False show ?thesis
    by (simp add: show_int64_def)
qed

lemma extract_empty: "extract_int64 [] = 0"
  by (simp add: extract_int64_def)

lemma length_dec_digits_pow: "n < 10 ^ Suc k \<Longrightarrow> length (dec_digits n) \<le> Suc k"
proof (induction k arbitrary: n)
  case 0
  then show ?case by (subst dec_digits.simps) simp
next
  case (Suc k)
  show ?case
  proof (cases "n < 10")
    case True
    then show ?thesis by (subst dec_digits.simps) simp
  next
    case False
    from Suc.prems have "n div 10 < 10 ^ Suc k"
      by (simp add: less_mult_imp_div_less mult.commute)
    from Suc.IH [OF this] False show ?thesis
      by (subst dec_digits.simps) simp
  qed
qed

lemma length_show_int64: "length (show_int64 w) \<le> 20"
proof -
  have up: "sint w < 9223372036854775808" using sint_lt [of w] by simp
  have lo: "- 9223372036854775808 \<le> sint w" using sint_ge [of w] by simp
  have "nat \<bar>sint w\<bar> < 10 ^ Suc 18"
    using up lo by simp
  from length_dec_digits_pow [OF this] have "length (dec_digits (nat \<bar>sint w\<bar>)) \<le> 19"
    by simp
  then show ?thesis
    by (auto simp: show_int64_def abs_if split: if_splits)
qed

lemma writable_show_int64: "writable_str (show_int64 w)"
  using length_show_int64 [of w] by (simp add: writable_str_def)

lemma add_encoded:
  assumes "valid_records unseen"
    and "log_of fs = pre @ encode_log unseen"
    and "pos st = int (length pre)"
    and "length (log_of fs) < 2147483648"
    and "unseen \<noteq> [] \<or> pre = []"
    and "writable_str key"
  shows "add st fs key i =
           (let c = cache st ++ map_of (rev unseen);
                text = (case c key of None \<Rightarrow> [] | Some v \<Rightarrow> v);
                r = extract_int64 text + i
            in (Inr r, st\<lparr>cache := c(key \<mapsto> text), pos := int (length (log_of fs))\<rparr>,
                Some (log_of fs @ encode_str key @ encode_str (show_int64 r))))"
  using add_written [OF assms(1-5), of key i] assms(6)
  by (simp add: Let_def written_str_writable writable_show_int64)

subsection \<open>The file never shrinks\<close>

lemma read_records_contents:
  "read_records sz st f = (e, st', f') \<Longrightarrow> contents f' = contents f"
proof (induction sz st f arbitrary: e st' f' rule: read_records.induct)
  case (1 sz st f)
  show ?case
  proof (cases "sz > pos st")
    case False
    with "1.prems" show ?thesis
      by (simp add: read_records.simps)
  next
    case True
    show ?thesis
    proof (cases "readString f")
      case (Inl x)
      with True "1.prems" show ?thesis
        by (simp add: read_records.simps)
    next
      case (Inr kf)
      obtain k f1 where kf: "kf = (k, f1)" by (cases kf)
      have c1: "contents f1 = contents f"
        using readString_advances [of f k f1] Inr kf by simp
      show ?thesis
      proof (cases "readString f1")
        case (Inl x)
        with True Inr kf "1.prems" c1 show ?thesis
          by (simp add: read_records.simps [of sz st f])
      next
        case r2: (Inr vf)
        obtain v f2 where vf: "vf = (v, f2)" by (cases vf)
        have c2: "contents f2 = contents f1"
          using readString_advances [of f1 v f2] r2 vf by simp
        have t: "tell f2 = Inr (int (offset f2), f2)"
          by (rule tell_eq)
        have "read_records sz
                (st\<lparr>cache := (cache st)(k \<mapsto> v), pos := to_int32 (int (offset f2))\<rparr>) f2
              = (e, st', f')"
          using True Inr kf r2 vf t "1.prems"
          by (simp add: read_records.simps [of sz st f])
        from "1.IH" [OF True Inr kf [symmetric] r2 vf [symmetric] t refl this]
        show ?thesis using c1 c2 by simp
      qed
    qed
  qed
qed

lemma length_write_bytes: "length (contents f) \<le> length (contents (write_bytes f bs))"
  by (simp add: write_bytes_def Let_def)

lemma length_writeString: "length (contents f) \<le> length (contents (writeString f s))"
  unfolding writeString_def Let_def
  by (rule order_trans [OF length_write_bytes length_write_bytes])

lemma log_of_Some [simp]: "log_of (Some bs) = bs"
  by (simp add: log_of_def)

lemma length_writeString2:
  "length (contents f) \<le> length (contents (writeString (writeString f a) b))"
  by (rule order_trans [OF length_writeString length_writeString])

lemma add_length_mono: "length (log_of fs) \<le> length (log_of (snd (snd (add st fs key i))))"
proof (cases "int (length (log_of fs)) > pos st")
  case False
  then show ?thesis
    using length_writeString2 [of "\<lparr>contents = log_of fs, offset = 0\<rparr>"]
    by (simp add: add_def open_file_RDWR size_file_eq Let_def)
next
  case True
  show ?thesis
  proof (cases "pos st < 0")
    case neg: True
    with True show ?thesis
      by (simp add: add_def open_file_RDWR size_file_eq seek_def)
  next
    case nonneg: False
    let ?f2 = "\<lparr>contents = log_of fs, offset = nat (pos st)\<rparr>"
    obtain e st1 f3 where r: "read_records (int (length (log_of fs))) st ?f2 = (e, st1, f3)"
      by (metis prod_cases3)
    have c3: "contents f3 = log_of fs"
      using read_records_contents [OF r] by simp
    show ?thesis
    proof (cases e)
      case None
      with True nonneg r c3 show ?thesis
        using length_writeString2 [of f3]
        by (simp add: add_def open_file_RDWR size_file_eq seek_SET Let_def)
    next
      case (Some x)
      with True nonneg r c3 show ?thesis
        by (simp add: add_def open_file_RDWR size_file_eq seek_SET)
    qed
  qed
qed

lemma run_adds_length_mono:
  "length (log_of fs) \<le> length (log_of (snd (run_adds stores fs sched key i)))"
proof (induction sched arbitrary: stores fs)
  case Nil
  show ?case by simp
next
  case (Cons t sched)
  obtain r st' fs' where a: "add (stores ! t) fs key i = (r, st', fs')"
    by (metis prod_cases3)
  have "length (log_of fs) \<le> length (log_of fs')"
    using add_length_mono [of fs "stores ! t" key i] a by simp
  also have "\<dots> \<le> length (log_of (snd (run_adds (stores[t := st']) fs' sched key i)))"
    by (rule Cons.IH)
  finally show ?case
    using a by simp
qed

subsection \<open>Counting with add\<close>

lemma adds_log_0 [simp]: "adds_log key 0 = []"
  by (simp add: adds_log_def)

lemma adds_log_Suc: "adds_log key (Suc c) = adds_log key c @ [(key, dec_digits (Suc c))]"
  by (simp add: adds_log_def)

lemma length_dec_digits: "length (dec_digits n) \<le> Suc n"
proof (induction n rule: dec_digits.induct)
  case (1 n)
  show ?case
  proof (cases "n < 10")
    case True
    then show ?thesis by (subst dec_digits.simps) simp
  next
    case False
    with 1 have "length (dec_digits (n div 10)) \<le> Suc (n div 10)" by simp
    with False show ?thesis by (subst dec_digits.simps) simp
  qed
qed

lemma length_encode_str_ge: "4 \<le> length (encode_str s)"
  by (simp add: encode_str_def)

lemma length_encode_log_adds: "8 * c \<le> length (encode_log (adds_log key c))"
proof (induction c)
  case 0
  show ?case by simp
next
  case (Suc c)
  have "8 \<le> length (encode_record (key, dec_digits (Suc c)))"
    using length_encode_str_ge [of key] length_encode_str_ge [of "dec_digits (Suc c)"]
    by (simp add: encode_record_def)
  with Suc show ?case
    by (simp add: adds_log_Suc encode_log_append encode_log_Cons)
qed

lemma valid_records_adds:
  "valid_str key \<Longrightarrow> c < 4294967295 \<Longrightarrow> valid_records (adds_log key c)"
proof (induction c)
  case 0
  show ?case by (simp add: valid_records_def)
next
  case (Suc c)
  have "length (dec_digits (Suc c)) \<le> Suc (Suc c)"
    by (rule length_dec_digits)
  with Suc.prems have "valid_str (dec_digits (Suc c))"
    by (simp add: valid_str_def)
  with Suc show ?case
    by (simp add: adds_log_Suc valid_records_def)
qed

lemma show_int64_of_nat:
  assumes "n < 9223372036854775808"
  shows "show_int64 (of_nat n) = dec_digits n"
proof -
  have "signed_take_bit 63 (int n) = int n"
    using assms by (intro signed_take_bit_int_eq_self) simp_all
  then have "sint (of_nat n :: 64 word) = int n"
    by (simp add: signed_of_nat)
  then show ?thesis
    by (simp add: show_int64_def)
qed

lemma map_of_rev_last:
  "xs \<noteq> [] \<Longrightarrow> last xs = (k, v) \<Longrightarrow> map_of (rev xs) k = Some v"
  by (cases xs rule: rev_cases) simp_all

lemma map_of_rev_None: "k \<notin> fst ` set xs \<Longrightarrow> map_of (rev xs) k = None"
  by (simp add: map_of_eq_None_iff)

lemma view_ok_later: "view_ok recs key c st \<Longrightarrow> view_ok recs key (Suc c) st"
proof -
  assume "view_ok recs key c st"
  then obtain seen unseen where v: "recs @ adds_log key c = seen @ unseen"
    "pos st = int (length (encode_log seen))"
    by (auto simp: view_ok_def)
  have "recs @ adds_log key (Suc c) = seen @ (unseen @ [(key, dec_digits (Suc c))])"
    using v(1) by (simp add: adds_log_Suc)
  with v(2) show ?thesis
    unfolding view_ok_def by blast
qed

lemma add_step:
  assumes recs: "valid_records recs" and key: "writable_str key"
    and fresh: "key \<notin> fst ` set recs"
    and log: "log_of fs = encode_log (recs @ adds_log key c)"
    and small: "length (log_of fs) < 2147483648"
    and view: "view_ok recs key c st"
  shows "\<exists>st'. add st fs key 1 =
            (Inr (of_nat (Suc c)), st', Some (encode_log (recs @ adds_log key (Suc c))))
          \<and> view_ok recs key (Suc c) st'"
proof -
  from view obtain seen unseen where su: "recs @ adds_log key c = seen @ unseen"
    and p: "pos st = int (length (encode_log seen))"
    and disj: "(c = 0 \<and> seen = [] \<and> cache st key = None) \<or> (unseen \<noteq> [] \<and> 0 < c)"
    by (auto simp: view_ok_def)
  have "8 * c \<le> length (log_of fs)"
    using length_encode_log_adds [of c key] log by (simp add: encode_log_append)
  with small have cb: "c < 268435456" by simp
  have "valid_records (recs @ adds_log key c)"
    using recs valid_records_adds [OF writable_valid [OF key], of c] cb by simp
  then have vu: "valid_records unseen"
    using su by simp
  have l2: "log_of fs = encode_log seen @ encode_log unseen"
    using log su by (simp add: encode_log_append)
  have d5: "unseen \<noteq> [] \<or> encode_log seen = []"
    using disj by auto
  let ?c = "cache st ++ map_of (rev unseen)"
  let ?text = "case ?c key of None \<Rightarrow> [] | Some v \<Rightarrow> v"
  have ex: "extract_int64 ?text = of_nat c"
  proof (cases "c = 0")
    case True
    with disj su have "unseen = recs" "cache st key = None" by auto
    with fresh have "?text = []"
      by (simp add: map_add_def map_of_rev_None)
    with True show ?thesis
      by (simp only: extract_empty) simp
  next
    case False
    with disj have ne: "unseen \<noteq> []" by auto
    obtain c' where c': "c = Suc c'" using False by (cases c) auto
    have "last (seen @ unseen) = (key, dec_digits c)"
      unfolding su [symmetric] c' by (simp add: adds_log_Suc)
    with ne have "last unseen = (key, dec_digits c)" by simp
    from map_of_rev_last [OF ne this] have "?c key = Some (dec_digits c)"
      by (simp add: map_add_def)
    moreover have "extract_int64 (dec_digits c) = word_of_int (int c)"
      using cb by (intro extract_dec_digits) simp
    ultimately show ?thesis by simp
  qed
  have sh: "show_int64 (of_nat c + 1) = dec_digits (Suc c)"
    using show_int64_of_nat [of "Suc c"] cb by (simp add: add.commute)
  let ?st' = "st\<lparr>cache := ?c(key \<mapsto> ?text), pos := int (length (log_of fs))\<rparr>"
  have a: "add st fs key 1 =
             (Inr (of_nat (Suc c)), ?st',
              Some (log_of fs @ encode_str key @ encode_str (dec_digits (Suc c))))"
    using add_encoded [OF vu l2 p small d5 key, of 1] ex sh
    by (simp add: Let_def)
  have f: "log_of fs @ encode_str key @ encode_str (dec_digits (Suc c)) =
           encode_log (recs @ adds_log key (Suc c))"
    using log by (simp add: adds_log_Suc encode_log_append encode_log_Cons encode_record_def)
  have "recs @ adds_log key (Suc c) = (recs @ adds_log key c) @ [(key, dec_digits (Suc c))]"
    by (simp add: adds_log_Suc)
  moreover have "pos ?st' = int (length (encode_log (recs @ adds_log key c)))"
    using log by simp
  ultimately have "view_ok recs key (Suc c) ?st'"
    unfolding view_ok_def by blast
  with a f show ?thesis by simp
qed

lemma run_adds_log:
  assumes "valid_records recs" and "writable_str key" and "key \<notin> fst ` set recs"
    and "log_of fs = encode_log (recs @ adds_log key c)"
    and "\<forall>st \<in> set stores. view_ok recs key c st"
    and "\<forall>t \<in> set sched. t < length stores"
    and "length (log_of (snd (run_adds stores fs sched key 1))) < 2147483648"
  shows "snd (run_adds stores fs sched key 1) =
           (if sched = [] then fs
            else Some (encode_log (recs @ adds_log key (c + length sched))))"
  using assms(4-7)
proof (induction sched arbitrary: stores fs c)
  case Nil
  show ?case by simp
next
  case (Cons t sched)
  have small: "length (log_of fs) < 2147483648"
    using run_adds_length_mono [of fs stores "t # sched" key 1] Cons.prems(4) by simp
  have t: "t < length stores" using Cons.prems(3) by simp
  then have "view_ok recs key c (stores ! t)"
    using Cons.prems(2) by simp
  from add_step [OF assms(1-3) Cons.prems(1) small this]
  obtain st' where a: "add (stores ! t) fs key 1 =
      (Inr (of_nat (Suc c)), st', Some (encode_log (recs @ adds_log key (Suc c))))"
    and v': "view_ok recs key (Suc c) st'"
    by blast
  let ?fs' = "Some (encode_log (recs @ adds_log key (Suc c)))"
  let ?stores' = "stores[t := st']"
  have step: "run_adds stores fs (t # sched) key 1 = run_adds ?stores' ?fs' sched key 1"
    using a by simp
  have views: "\<forall>st \<in> set ?stores'. view_ok recs key (Suc c) st"
  proof
    fix st assume "st \<in> set ?stores'"
    then have "st = st' \<or> st \<in> set stores"
      using set_update_subset_insert [of stores t st'] by auto
    then show "view_ok recs key (Suc c) st"
      using v' Cons.prems(2) view_ok_later by blast
  qed
  have ih: "snd (run_adds ?stores' ?fs' sched key 1) =
          (if sched = [] then ?fs'
           else Some (encode_log (recs @ adds_log key (Suc c + length sched))))"
    by (rule Cons.IH) (use Cons.prems step views in simp_all)
  show ?case
    unfolding step ih by simp
qed

subsection \<open>More on add, and small facts for concrete inputs\<close>


lemma write_bytes_inside:
  "offset f \<le> length (contents f) \<Longrightarrow> length bs \<le> 2147479552 \<Longrightarrow>
   write_bytes f bs =
     f\<lparr>contents := take (offset f) (contents f) @ bs @ drop (offset f + length bs) (contents f),
       offset := offset f + length bs\<rparr>"
  by (simp add: write_bytes_def)

lemma writeString_inside:
  assumes "offset f \<le> length (contents f)" and "writable_str s"
  shows "writeString f s =
     f\<lparr>contents := take (offset f) (contents f) @ encode_str s
                      @ drop (offset f + length (encode_str s)) (contents f),
       offset := offset f + length (encode_str s)\<rparr>"
proof -
  let ?P = "bytes_of_u32 (of_nat (length s))"
  let ?c1 = "take (offset f) (contents f) @ ?P @ drop (offset f + 4) (contents f)"
  let ?f1 = "f\<lparr>contents := ?c1, offset := offset f + 4\<rparr>"
  have ls: "length s \<le> 2147479552"
    using assms(2) by (simp add: writable_str_def)
  have u: "unat (of_nat (length s) :: 32 word) = length s"
    using ls by (simp add: unat_of_nat)
  have e: "encode_str s = ?P @ s"
    by (simp add: encode_str_def u)
  have w1: "write_bytes f ?P = ?f1"
    using write_bytes_inside [OF assms(1), of ?P] by simp
  have o1: "offset ?f1 \<le> length (contents ?f1)"
    using assms(1) by simp
  have w2: "write_bytes ?f1 s =
              ?f1\<lparr>contents := take (offset ?f1) (contents ?f1) @ s
                                   @ drop (offset ?f1 + length s) (contents ?f1),
                   offset := offset ?f1 + length s\<rparr>"
    by (rule write_bytes_inside [OF o1 ls])
  have t: "take (offset f + 4) ?c1 = take (offset f) (contents f) @ ?P"
    using assms(1) by simp
  have d: "drop (offset f + 4 + length s) ?c1 = drop (offset f + 4 + length s) (contents f)"
    using assms(1) by (simp add: add.commute add.left_commute)
  have "writeString f s = write_bytes ?f1 s"
    by (simp add: writeString_def Let_def u w1)
  also have "\<dots> = f\<lparr>contents := take (offset f) (contents f) @ ?P @ s
                                   @ drop (offset f + 4 + length s) (contents f),
                   offset := offset f + 4 + length s\<rparr>"
    unfolding w2 using t d by simp
  finally show ?thesis
    by (simp add: e add.assoc)
qed

lemma writeString_twice_at_0:
  "writable_str a \<Longrightarrow> writable_str b \<Longrightarrow>
   contents (writeString (writeString \<lparr>contents = bs, offset = 0\<rparr> a) b) =
     encode_record (a, b) @ drop (length (encode_record (a, b))) bs"
  by (simp add: writeString_inside encode_record_def add.commute)

lemma add_at_end_of_log:
  assumes "pos st = int (length (log_of fs))" and "writable_str key"
  shows "add st fs key i =
           (let text = (case cache st key of None \<Rightarrow> [] | Some v \<Rightarrow> v);
                r = extract_int64 text + i;
                new = encode_record (key, show_int64 r)
            in (Inr r, st\<lparr>cache := (cache st)(key \<mapsto> text)\<rparr>,
                Some (new @ drop (length new) (log_of fs))))"
  using assms
  by (simp add: add_def open_file_RDWR size_file_eq Let_def writeString_twice_at_0
        writable_show_int64)

lemma valid_str_short [simp]: "length s < 4294967296 \<Longrightarrow> valid_str s"
  by (simp add: valid_str_def)

lemma writable_str_short [simp]: "length s \<le> 2147479552 \<Longrightarrow> writable_str s"
  by (simp add: writable_str_def)

lemma valid_records_Nil [simp]: "valid_records []"
  by (simp add: valid_records_def)

lemma valid_records_Cons [simp]:
  "valid_records ((k, v) # rs) = (valid_str k \<and> valid_str v \<and> valid_records rs)"
  by (simp add: valid_records_def)

lemma log_of_None [simp]: "log_of None = []"
  by (simp add: log_of_def)

lemma FileStore_new_simps [simp]: "pos FileStore_new = 0" "cache FileStore_new = Map.empty"
  by (simp_all add: FileStore_new_def)

lemma get_single_record:
  assumes "valid_str k" and "valid_str v" and "8 + length k + length v < 2147483648"
  shows "get FileStore_new [Some (encode_record (k, v))] k =
           (Some (Inr v), \<lparr>pos = 8 + int (length k) + int (length v), cache = [k \<mapsto> v]\<rparr>)"
proof -
  have b: "encode_record (k, v) = [] @ encode_log [(k, v)]"
    by (simp add: encode_log_Cons)
  have "get FileStore_new (Some (encode_record (k, v)) # []) k =
          (Some (Inr v),
           FileStore_new\<lparr>cache := cache FileStore_new ++ map_of (rev [(k, v)]),
                          pos := int (length (encode_record (k, v)))\<rparr>)"
    by (rule get_encoded [OF _ b]) (use assms in \<open>simp_all add: length_encode_record\<close>)
  then show ?thesis
    using assms by (simp add: length_encode_record FileStore_new_def)
qed

lemma show_int64_1: "show_int64 1 = ''1''"
  by (simp add: show_int64_def dec_digits.simps char_of_def bit_Suc_0_iff)

lemma show_int64_2: "show_int64 2 = ''2''"
  by (simp add: show_int64_def dec_digits.simps char_of_def bit_Suc_0_iff)

lemma extract_int64_1: "extract_int64 ''1'' = 1"
  by (simp add: extract_int64_def isspace_def isdigit_def digits_value_def)


lemma view_ok_new: "view_ok recs key 0 FileStore_new"
  unfolding view_ok_def by (intro exI [of _ "[]"] exI [of _ recs]) simp

lemma length_sched:
  assumes "\<forall>t \<in> set sched. t < N" and "\<forall>t < N. count_list sched t = M"
  shows "length sched = N * M"
proof -
  have "set sched \<subseteq> {..<N}"
    using assms(1) by auto
  then have "sum (count_list sched) {..<N} = length sched"
    by (rule sum_count_set) simp
  moreover have "sum (count_list sched) {..<N} = (\<Sum>t<N. M)"
    using assms(2) by (intro sum.cong) simp_all
  ultimately show ?thesis by simp
qed

lemma dec_digits_1: "dec_digits (Suc 0) = ''1''"
  by (simp add: dec_digits.simps char_of_def bit_Suc_0_iff)

lemma dec_digits_2: "dec_digits 2 = ''2''"
  by (simp add: dec_digits.simps char_of_def bit_Suc_0_iff)

lemma run_two_adds:
  "snd (run_adds [FileStore_new, FileStore_new] None [1, 0] ''counter'' 1) =
     Some (encode_log [(''counter'', ''1''), (''counter'', ''2'')])"
proof -
  have a1: "add FileStore_new None ''counter'' 1 =
              (Inr 1, \<lparr>pos = 0, cache = [''counter'' \<mapsto> []]\<rparr>,
               Some (encode_record (''counter'', ''1'')))"
    using add_encoded [of "[]" None "[]" FileStore_new "''counter''" 1]
    by (simp add: Let_def extract_empty show_int64_1 encode_record_def FileStore_new_def)
  have l: "log_of (Some (encode_record (''counter'', ''1''))) = [] @ encode_log [(''counter'', ''1'')]"
    by (simp add: encode_log_Cons)
  have a2: "snd (snd (add FileStore_new (Some (encode_record (''counter'', ''1''))) ''counter'' 1)) =
               Some (encode_record (''counter'', ''1'') @ encode_record (''counter'', ''2''))"
    using add_encoded [OF _ l, of FileStore_new "''counter''" 1]
    by (simp add: Let_def length_encode_str extract_int64_1 show_int64_2 encode_record_def)
  show ?thesis
    using a1 a2 by (auto simp: encode_log_Cons split: prod.splits)
qed

lemma check_empty_log: "check FileStore_new (Some []) [''missing''] = (Inr False, FileStore_new)"
  by (simp add: check_def open_file_RDONLY_Some size_file_eq)

lemma read_records_truncated:
  "read_records 11 FileStore_new
      \<lparr>contents = encode_str ''k'' @ bytes_of_u32 5 @ ''ab'', offset = 0\<rparr> =
     (None, \<lparr>pos = 11, cache = [''k'' \<mapsto> ''ab'' @ [CHR 0x00, CHR 0x00, CHR 0x00]]\<rparr>,
      \<lparr>contents = encode_str ''k'' @ bytes_of_u32 5 @ ''ab'', offset = 11\<rparr>)"
proof -
  let ?bs = "encode_str ''k'' @ bytes_of_u32 5 @ ''ab''"
  let ?f = "\<lparr>contents = ?bs, offset = 0\<rparr>"
  have r1: "readString ?f = Inr (''k'', ?f\<lparr>offset := 5\<rparr>)"
    using readString_encoded [of "''k''" ?f "[]" "bytes_of_u32 5 @ ''ab''"]
    by (simp add: length_encode_str)
  have r2: "readString (?f\<lparr>offset := 5\<rparr>) =
              Inr (''ab'' @ [CHR 0x00, CHR 0x00, CHR 0x00], ?f\<lparr>offset := 11\<rparr>)"
    using readString_prefixed [of "?f\<lparr>offset := 5\<rparr>" "encode_str ''k''" 5 "''ab''"]
    by (simp add: length_encode_str numeral_3_eq_3)
  have t: "to_int32 11 = 11"
    by (rule to_int32_small) simp_all
  let ?v = "''ab'' @ [CHR 0x00, CHR 0x00, CHR 0x00]"
  let ?st1 = "FileStore_new\<lparr>cache := (cache FileStore_new)(''k'' \<mapsto> ?v), pos := 11\<rparr>"
  have s1: "read_records 11 FileStore_new ?f = read_records 11 ?st1 (?f\<lparr>offset := 11\<rparr>)"
    using r1 r2 t by (subst read_records.simps) (simp add: tell_eq)
  have s2: "read_records 11 ?st1 (?f\<lparr>offset := 11\<rparr>) = (None, ?st1, ?f\<lparr>offset := 11\<rparr>)"
    by (subst read_records.simps) simp
  show ?thesis
    unfolding s1 s2 by (simp add: FileStore_new_def)
qed

lemma counter_record_bytes:
  "encode_record (''counter'', ''1'') =
     [CHR 0x07, CHR 0x00, CHR 0x00, CHR 0x00] @ ''counter'' @ [CHR 0x01, CHR 0x00, CHR 0x00, CHR 0x00] @ ''1''"
  by (simp add: encode_record_def encode_str_def bytes_of_u32_def char_of_def bit_Suc_0_iff)

lemma read_at_10:
  "readString \<lparr>contents = encode_record (''counter'', ''1''), offset = 10\<rparr> =
     Inr ([CHR 0x00, CHR ''1''] @ replicate 368 (CHR 0x00),
          \<lparr>contents = encode_record (''counter'', ''1''), offset = 16\<rparr>)"
  unfolding counter_record_bytes
  by (simp add: readString_def read_bytes_def u32_of_bytes_def Let_def)

lemma read_at_16:
  "readString \<lparr>contents = encode_record (''counter'', ''1''), offset = 16\<rparr> = Inl Indeterminate"
  unfolding counter_record_bytes
  by (simp add: readString_def read_bytes_def Let_def)

text \<open>
  Fresh stores do count: \<open>N\<close> of them, each adding 1 to the key \<open>M\<close> times in any
  order of the lock, on a log of whole records without the key, leave the decimal text
  of \<open>N * M\<close>, as long as the log stays shorter than \<open>2^31\<close> bytes.
\<close>

lemma concurrent_adds_total:
  assumes "valid_records recs" and "writable_str key" and "key \<notin> fst ` set recs"
    and "log_of fs = encode_log recs"
    and "\<forall>t \<in> set sched. t < N"
    and "\<forall>t < N. count_list sched t = M"
    and "0 < N" and "0 < M"
    and "final = snd (run_adds (replicate N FileStore_new) fs sched key 1)"
    and "length (log_of final) < 2147483648"
  shows "fst (get FileStore_new [final] key) = Some (Inr (dec_digits (N * M)))"
proof -
  let ?c = "N * M"
  have len: "length sched = ?c"
    by (rule length_sched [OF assms(5,6)])
  with assms(7,8) have ne: "sched \<noteq> []" by auto
  have f: "final = Some (encode_log (recs @ adds_log key ?c))"
    unfolding assms(9)
    using run_adds_log [OF assms(1-3), of fs 0 "replicate N FileStore_new" sched]
      assms(4,5,9,10) ne len
    by (simp add: view_ok_new)
  have "8 * ?c \<le> length (encode_log (recs @ adds_log key ?c))"
    using length_encode_log_adds [of ?c key] by (simp add: encode_log_append)
  with f assms(10) have cb: "?c < 268435456" by simp
  have v: "valid_records (recs @ adds_log key ?c)"
    using assms(1) valid_records_adds [OF writable_valid [OF assms(2)], of ?c] cb by simp
  obtain c' where c': "?c = Suc c'"
    using assms(7,8) by (cases ?c) auto
  have "last (recs @ adds_log key ?c) = (key, dec_digits ?c)"
    unfolding c' by (simp add: adds_log_Suc)
  moreover have "recs @ adds_log key ?c \<noteq> []"
    unfolding c' by (simp add: adds_log_Suc)
  ultimately have m: "map_of (rev (recs @ adds_log key ?c)) key = Some (dec_digits ?c)"
    by (intro map_of_rev_last)
  have b: "encode_log (recs @ adds_log key ?c) = [] @ encode_log (recs @ adds_log key ?c)"
    by simp
  have "get FileStore_new (Some (encode_log (recs @ adds_log key ?c)) # []) key =
          (Some (Inr (dec_digits ?c)),
           FileStore_new\<lparr>cache := cache FileStore_new ++ map_of (rev (recs @ adds_log key ?c)),
                          pos := int (length (encode_log (recs @ adds_log key ?c)))\<rparr>)"
    by (rule get_encoded [OF v b _ _ _ m]) (use f assms(10) in simp_all)
  with f show ?thesis by simp
qed

lemma concurrent_adds_total_example:
  "valid_records [] \<and> valid_str ''counter'' \<and> ''counter'' \<notin> fst ` set []
   \<and> log_of None = encode_log []
   \<and> list_all (\<lambda>t. t < 2) [1, 0 :: nat]
   \<and> count_list [1, 0 :: nat] 0 = 1 \<and> count_list [1, 0 :: nat] 1 = 1
   \<and> length (log_of (snd (run_adds (replicate 2 FileStore_new) None [1, 0] ''counter'' 1)))
        < 2147483648
   \<and> fst (get FileStore_new [snd (run_adds (replicate 2 FileStore_new) None [1, 0] ''counter'' 1)]
            ''counter'') = Some (Inr ''2'')"
proof -
  have r: "replicate 2 FileStore_new = [FileStore_new, FileStore_new]"
    by (simp add: numeral_2_eq_2)
  have c: "\<forall>t<2. count_list [1, 0 :: nat] t = 1"
    by (auto simp: less_2_cases_iff)
  have s: "length (log_of (snd (run_adds (replicate 2 FileStore_new) None [1, 0] ''counter'' 1)))
        < 2147483648"
    unfolding r run_two_adds
    by (simp add: encode_log_Cons length_encode_record)
  from concurrent_adds_total [of "[]" "''counter''" None "[1, 0]" 2 1, OF _ _ _ _ _ c _ _ refl s]
  have "fst (get FileStore_new [snd (run_adds (replicate 2 FileStore_new) None [1, 0] ''counter'' 1)]
            ''counter'') = Some (Inr ''2'')"
    by (simp add: dec_digits_2)
  with s show ?thesis by simp
qed

subsection \<open>wait throws its timeout only after the timeout\<close>

lemma readString_error: "readString f = Inl e \<Longrightarrow> e = Indeterminate"
  by (auto simp: readString_def Let_def split: prod.splits if_splits)

lemma read_records_error:
  "read_records sz st f = (Some e, st', f') \<Longrightarrow> e = Indeterminate"
proof (induction sz st f arbitrary: st' f' rule: read_records.induct)
  case (1 sz st f)
  show ?case
  proof (cases "sz > pos st")
    case False
    with "1.prems" show ?thesis
      by (simp add: read_records.simps)
  next
    case True
    show ?thesis
    proof (cases "readString f")
      case (Inl x)
      with True "1.prems" readString_error [of f x] show ?thesis
        by (simp add: read_records.simps)
    next
      case (Inr kf)
      obtain k f1 where kf: "kf = (k, f1)" by (cases kf)
      show ?thesis
      proof (cases "readString f1")
        case (Inl x)
        with True Inr kf "1.prems" readString_error [of f1 x] show ?thesis
          by (simp add: read_records.simps [of sz st f])
      next
        case r2: (Inr vf)
        obtain v f2 where vf: "vf = (v, f2)" by (cases vf)
        have t: "tell f2 = Inr (int (offset f2), f2)"
          by (rule tell_eq)
        have "read_records sz
                (st\<lparr>cache := (cache st)(k \<mapsto> v), pos := to_int32 (int (offset f2))\<rparr>) f2
              = (Some e, st', f')"
          using True Inr kf r2 vf t "1.prems"
          by (simp add: read_records.simps [of sz st f])
        from "1.IH" [OF True Inr kf [symmetric] r2 vf [symmetric] t refl this]
        show ?thesis .
      qed
    qed
  qed
qed

lemma check_error: "check st fs names = (Inl e, st') \<Longrightarrow> e \<noteq> TimeoutError"
  by (auto simp: check_def open_file_def size_file_eq seek_def Let_def
      split: option.splits sum.splits prod.splits if_splits dest!: read_records_error)

lemma cast_seconds_bound:
  assumes "0 \<le> t" and "t < duration_cast_seconds d * 1000"
  shows "t * 1000000 < d"
proof (cases "d \<le> 0")
  case True
  have "0 \<le> \<bar>d\<bar> div 1000000000" by simp
  with True have "duration_cast_seconds d \<le> 0"
    by (simp add: duration_cast_seconds_def sgn_if)
  with assms show ?thesis by simp
next
  case False
  then have c: "duration_cast_seconds d = d div 1000000000"
    by (simp add: duration_cast_seconds_def sgn_if)
  have "d div 1000000000 * 1000000000 + d mod 1000000000 = d"
    by simp
  moreover have "0 \<le> d mod 1000000000"
    by simp
  ultimately have "d div 1000000000 * 1000000000 \<le> d"
    by linarith
  moreover have "t * 1000000 < d div 1000000000 * 1000 * 1000000"
    using assms(2) c by simp
  ultimately show ?thesis by linarith
qed

lemma wait_not_early:
  assumes "wait kNoTimeout st start world names timeout = (Some (Inl TimeoutError), st')"
    and "0 \<le> timeout"
  shows "\<exists>w \<in> set world. timeout * 1000000 < snd w - start"
  using assms(1)
proof (induction world arbitrary: st)
  case Nil
  then show ?case by simp
next
  case (Cons w world)
  obtain fs now where w: "w = (fs, now)" by (cases w)
  obtain r st1 where c: "check st fs names = (r, st1)" by (cases "check st fs names")
  show ?case
  proof (cases r)
    case (Inl e)
    with Cons.prems w c check_error [of st fs names e st1] show ?thesis by simp
  next
    case (Inr b)
    show ?thesis
    proof (cases b)
      case True
      with Cons.prems w c Inr show ?thesis by simp
    next
      case False
      show ?thesis
      proof (cases "timeout \<noteq> kNoTimeout \<and> duration_cast_seconds (now - start) * 1000 > timeout")
        case t: True
        then have "timeout < duration_cast_seconds (now - start) * 1000" by simp
        then have "timeout * 1000000 < now - start"
          using assms(2) by (intro cast_seconds_bound)
        with w show ?thesis by auto
      next
        case f: False
        with Cons.prems w c Inr False
        have "wait kNoTimeout st1 start world names timeout = (Some (Inl TimeoutError), st')"
          by (auto simp: Let_def)
        from Cons.IH [OF this] show ?thesis by auto
      qed
    qed
  qed
qed

section \<open>The claims\<close>

text \<open>
  \<^bold>\<open>C1.\<close>  The claim is that \<open>wait\<close> with a timeout of 100 ms on a key that is never
  set fails after about 100 ms.  The elapsed time is cast to whole seconds before it is
  compared with the timeout: below, with the clock read 150 ms and 999 ms after the
  start, \<open>wait\<close> is still polling, and it throws at the reading of 1000 ms
  (readings in nanoseconds, \<open>kNoTimeout\<close> taken as 0).
\<close>

theorem wait_timeout_whole_seconds:
  "wait 0 FileStore_new 0 [(Some [], 150000000), (Some [], 999000000)] [''missing''] 100 =
     (None, FileStore_new)
   \<and> wait 0 FileStore_new 0 [(Some [], 150000000), (Some [], 999000000), (Some [], 1000000000)]
       [''missing''] 100 =
     (Some (Inl TimeoutError), FileStore_new)"
  by (simp add: check_empty_log duration_cast_seconds_def)

text \<open>
  \<^bold>\<open>C2.\<close>  The claim is that a log that ends inside a record makes \<open>get\<close>,
  \<open>check\<close> and \<open>add\<close> fail with an I/O error.  Below, the log holds the key \<open>k\<close>
  and a value whose prefix says 5 bytes where 2 follow: all three return normally, and
  the value is the 2 bytes followed by 3 zero bytes of the buffer.
\<close>

theorem truncated_log_no_error:
  "get FileStore_new [Some (encode_str ''k'' @ bytes_of_u32 5 @ ''ab'')] ''k'' =
     (Some (Inr (''ab'' @ [CHR 0x00, CHR 0x00, CHR 0x00])),
      \<lparr>pos = 11, cache = [''k'' \<mapsto> ''ab'' @ [CHR 0x00, CHR 0x00, CHR 0x00]]\<rparr>)
   \<and> check FileStore_new (Some (encode_str ''k'' @ bytes_of_u32 5 @ ''ab'')) [''k''] =
     (Inr True, \<lparr>pos = 11, cache = [''k'' \<mapsto> ''ab'' @ [CHR 0x00, CHR 0x00, CHR 0x00]]\<rparr>)
   \<and> fst (add FileStore_new (Some (encode_str ''k'' @ bytes_of_u32 5 @ ''ab'')) ''k'' 1) = Inr 1"
proof -
  have len: "length (encode_str ''k'' @ bytes_of_u32 5 @ ''ab'') = 11"
    by (simp add: length_encode_str)
  have x: "extract_int64 (''ab'' @ [CHR 0x00, CHR 0x00, CHR 0x00]) = 0"
    by (simp add: extract_int64_def isspace_def isdigit_def)
  have g: "get FileStore_new [Some (encode_str ''k'' @ bytes_of_u32 5 @ ''ab'')] ''k'' =
     (Some (Inr (''ab'' @ [CHR 0x00, CHR 0x00, CHR 0x00])),
      \<lparr>pos = 11, cache = [''k'' \<mapsto> ''ab'' @ [CHR 0x00, CHR 0x00, CHR 0x00]]\<rparr>)"
    using read_records_truncated len
    by (subst get.simps)
       (simp add: open_file_RDONLY_Some size_file_eq seek_SET get_cached del: append.simps)
  have c: "check FileStore_new (Some (encode_str ''k'' @ bytes_of_u32 5 @ ''ab'')) [''k''] =
     (Inr True, \<lparr>pos = 11, cache = [''k'' \<mapsto> ''ab'' @ [CHR 0x00, CHR 0x00, CHR 0x00]]\<rparr>)"
    using read_records_truncated len
    by (simp add: check_def open_file_RDONLY_Some size_file_eq seek_SET del: append.simps)
  have a: "fst (add FileStore_new (Some (encode_str ''k'' @ bytes_of_u32 5 @ ''ab'')) ''k'' 1) = Inr 1"
    using read_records_truncated len x
    by (simp add: add_def open_file_RDWR size_file_eq seek_SET Let_def del: append.simps)
  from g c a show ?thesis by simp
qed

text \<open>
  \<^bold>\<open>C3.\<close>  The claim is that \<open>add\<close> appends its record to the log.  Below, an
  instance sets \<open>a\<close>, reads it (its cursor is then at the end of the file, 10) and
  adds 1 to \<open>counter\<close>: the loop is not entered, the descriptor is still at offset 0,
  and the record is written over the start of the file.  The record of \<open>a\<close> is gone.
\<close>

theorem add_at_end_overwrites:
  "set_store FileStore_new None ''a'' ''1'' =
     (Inr (), FileStore_new, Some (encode_record (''a'', ''1'')))
   \<and> get FileStore_new [Some (encode_record (''a'', ''1''))] ''a'' =
     (Some (Inr ''1''), \<lparr>pos = 10, cache = [''a'' \<mapsto> ''1'']\<rparr>)
   \<and> add \<lparr>pos = 10, cache = [''a'' \<mapsto> ''1'']\<rparr> (Some (encode_record (''a'', ''1'')))
        ''counter'' 1 =
     (Inr 1, \<lparr>pos = 10, cache = [''a'' \<mapsto> ''1'', ''counter'' \<mapsto> []]\<rparr>,
      Some (encode_record (''counter'', ''1'')))"
proof -
  have l: "length (encode_record (''a'', ''1'')) = 10"
    by (simp add: length_encode_record)
  have l2: "length (encode_record (''counter'', ''1'')) = 16"
    by (simp add: length_encode_record)
  have "add \<lparr>pos = 10, cache = [''a'' \<mapsto> ''1'']\<rparr> (Some (encode_record (''a'', ''1'')))
        ''counter'' 1 =
     (Inr 1, \<lparr>pos = 10, cache = [''a'' \<mapsto> ''1'', ''counter'' \<mapsto> []]\<rparr>,
      Some (encode_record (''counter'', ''1'')))"
    using add_at_end_of_log [of "\<lparr>pos = 10, cache = [''a'' \<mapsto> ''1'']\<rparr>"
        "Some (encode_record (''a'', ''1''))" "''counter''" 1] l l2
    by (simp add: Let_def extract_empty show_int64_1)
  then show ?thesis
    using get_single_record [of "''a''" "''1''"]
    by (simp add: set_store_appends encode_record_def)
qed

text \<open>
  \<^bold>\<open>C4.\<close>  The claim is that no increment is lost when instances each call
  \<open>add("counter", 1)\<close> a number of times.  One instance is enough to lose one, by the
  defect of C3: below, an instance has read the log (the record of \<open>key0\<close>, 16 bytes,
  cursor 16) and adds 1 to \<open>counter\<close> twice.  Each \<open>add\<close> finds the size equal to the
  cursor, reads nothing, takes the empty string that \<open>cache_[key]\<close> inserted for 0,
  writes its record (16 bytes) at offset 0 and returns 1; a fresh instance then reads
  \<open>1\<close> for \<open>counter\<close>, not \<open>2\<close>.  In \<open>run_adds\<close> the schedule \<open>[0, 0]\<close> is the one
  store adding twice.
\<close>

theorem concurrent_adds_lost_update:
  "get FileStore_new [Some (encode_record (''key0'', ''val0''))] ''key0'' =
     (Some (Inr ''val0''), \<lparr>pos = 16, cache = [''key0'' \<mapsto> ''val0'']\<rparr>)
   \<and> add \<lparr>pos = 16, cache = [''key0'' \<mapsto> ''val0'']\<rparr>
        (Some (encode_record (''key0'', ''val0''))) ''counter'' 1 =
     (Inr 1, \<lparr>pos = 16, cache = [''key0'' \<mapsto> ''val0'', ''counter'' \<mapsto> []]\<rparr>,
      Some (encode_record (''counter'', ''1'')))
   \<and> add \<lparr>pos = 16, cache = [''key0'' \<mapsto> ''val0'', ''counter'' \<mapsto> []]\<rparr>
        (Some (encode_record (''counter'', ''1''))) ''counter'' 1 =
     (Inr 1, \<lparr>pos = 16, cache = [''key0'' \<mapsto> ''val0'', ''counter'' \<mapsto> []]\<rparr>,
      Some (encode_record (''counter'', ''1'')))
   \<and> run_adds [\<lparr>pos = 16, cache = [''key0'' \<mapsto> ''val0'']\<rparr>]
        (Some (encode_record (''key0'', ''val0''))) [0, 0] ''counter'' 1 =
     ([\<lparr>pos = 16, cache = [''key0'' \<mapsto> ''val0'', ''counter'' \<mapsto> []]\<rparr>],
      Some (encode_record (''counter'', ''1'')))
   \<and> get FileStore_new [Some (encode_record (''counter'', ''1''))] ''counter'' =
     (Some (Inr ''1''), \<lparr>pos = 16, cache = [''counter'' \<mapsto> ''1'']\<rparr>)"
proof -
  let ?a0 = "\<lparr>pos = 16, cache = [''key0'' \<mapsto> ''val0'']\<rparr>"
  let ?a1 = "\<lparr>pos = 16, cache = [''key0'' \<mapsto> ''val0'', ''counter'' \<mapsto> []]\<rparr>"
  have la: "length (encode_record (''key0'', ''val0'')) = 16"
    by (simp add: length_encode_record)
  have lc: "length (encode_record (''counter'', ''1'')) = 16"
    by (simp add: length_encode_record)
  have s1: "add ?a0 (Some (encode_record (''key0'', ''val0''))) ''counter'' 1 =
              (Inr 1, ?a1, Some (encode_record (''counter'', ''1'')))"
    using add_at_end_of_log [of ?a0 "Some (encode_record (''key0'', ''val0''))" "''counter''" 1]
      la lc
    by (simp add: Let_def extract_empty show_int64_1)
  have s2: "add ?a1 (Some (encode_record (''counter'', ''1''))) ''counter'' 1 =
              (Inr 1, ?a1, Some (encode_record (''counter'', ''1'')))"
    using add_at_end_of_log [of ?a1 "Some (encode_record (''counter'', ''1''))" "''counter''" 1] lc
    by (simp add: Let_def extract_empty show_int64_1)
  have r: "run_adds [?a0] (Some (encode_record (''key0'', ''val0''))) [0, 0] ''counter'' 1 =
             ([?a1], Some (encode_record (''counter'', ''1'')))"
    using s1 s2 by simp
  show ?thesis
    using s1 s2 r get_single_record [of "''key0''" "''val0''"]
      get_single_record [of "''counter''" "''1''"]
    by simp
qed







text \<open>
  \<^bold>\<open>C7.\<close>  The claim is that the cursor is always on a record boundary of the log.
  After the \<open>add\<close> of C3 the log is one record of 16 bytes and the cursor of the
  instance is 10, inside the key of that record; its next \<open>check\<close> reads a length
  from the bytes at 10, runs into the end of the file, and ends in the read of a
  length that no byte was read for.
\<close>

theorem cursor_misaligned_after_add:
  "fst (snd (add \<lparr>pos = 10, cache = [''a'' \<mapsto> ''1'']\<rparr> (Some (encode_record (''a'', ''1'')))
              ''counter'' 1)) =
     \<lparr>pos = 10, cache = [''a'' \<mapsto> ''1'', ''counter'' \<mapsto> []]\<rparr>
   \<and> snd (snd (add \<lparr>pos = 10, cache = [''a'' \<mapsto> ''1'']\<rparr> (Some (encode_record (''a'', ''1'')))
              ''counter'' 1)) =
     Some (encode_record (''counter'', ''1''))
   \<and> length (encode_record (''counter'', ''1'')) = 16
   \<and> check \<lparr>pos = 10, cache = [''a'' \<mapsto> ''1'', ''counter'' \<mapsto> []]\<rparr>
        (Some (encode_record (''counter'', ''1''))) [''counter''] =
     (Inl Indeterminate, \<lparr>pos = 10, cache = [''a'' \<mapsto> ''1'', ''counter'' \<mapsto> []]\<rparr>)"
proof -
  let ?st = "\<lparr>pos = 10, cache = [''a'' \<mapsto> ''1'', ''counter'' \<mapsto> []]\<rparr>"
  let ?f = "\<lparr>contents = encode_record (''counter'', ''1''), offset = 10\<rparr>"
  have l: "length (encode_record (''a'', ''1'')) = 10"
    by (simp add: length_encode_record)
  have l2: "length (encode_record (''counter'', ''1'')) = 16"
    by (simp add: length_encode_record)
  have a: "add \<lparr>pos = 10, cache = [''a'' \<mapsto> ''1'']\<rparr> (Some (encode_record (''a'', ''1'')))
        ''counter'' 1 = (Inr 1, ?st, Some (encode_record (''counter'', ''1'')))"
    using add_at_end_of_log [of "\<lparr>pos = 10, cache = [''a'' \<mapsto> ''1'']\<rparr>"
        "Some (encode_record (''a'', ''1''))" "''counter''" 1] l l2
    by (simp add: Let_def extract_empty show_int64_1)
  have rr: "read_records 16 ?st ?f = (Some Indeterminate, ?st, ?f\<lparr>offset := 16\<rparr>)"
    by (subst read_records.simps) (simp add: read_at_10 read_at_16)
  have c: "check ?st (Some (encode_record (''counter'', ''1''))) [''counter''] =
             (Inl Indeterminate, ?st)"
    using rr l2 by (simp add: check_def open_file_RDONLY_Some size_file_eq seek_SET)
  from a l2 c show ?thesis by simp
qed

text \<open>
  \<^bold>\<open>C8.\<close>  The claim is that \<open>set(key, value)\<close> leaves the instance as it was and
  appends a record to the file.  The first half holds for every input.  The second does
  not for a long string: \<open>writeString\<close> hands the whole string to one \<open>write\<close>, which
  transfers at most \<open>0x7ffff000\<close> bytes, and does not look at the count.  Below, the
  value has \<open>2^31 - 100\<close> bytes: the prefix in the file says so, and 2147479552 bytes
  follow it, so the file has 2147479561 bytes where the record has 2147483557.
\<close>

theorem set_store_cut_record_counterexample:
  "set_store FileStore_new None ''k'' (replicate 2147483548 (CHR ''x'')) =
     (Inr (), FileStore_new,
      Some (encode_str ''k'' @ bytes_of_u32 2147483548 @ replicate 2147479552 (CHR ''x'')))
   \<and> length (encode_str ''k'' @ bytes_of_u32 2147483548 @ replicate 2147479552 (CHR ''x''))
       = 2147479561
   \<and> length (encode_record (''k'', replicate 2147483548 (CHR ''x''))) = 2147483557"
proof -
  have w: "written_str (replicate 2147483548 (CHR ''x'')) =
             bytes_of_u32 2147483548 @ replicate 2147479552 (CHR ''x'')"
    by (simp add: written_str_def)
  have k: "written_str ''k'' = encode_str ''k''"
    by (simp add: written_str_writable)
  show ?thesis
    by (simp add: set_store_written w k length_encode_record length_encode_str)
qed

text \<open>
  \<^bold>\<open>C8, amended.\<close>  For every instance, key and value, \<open>set(key, value)\<close> returns
  normally, leaves the instance (cache and cursor) as it was, and the file afterwards is
  the file before (empty when there was none) followed by what \<open>writeString\<close> leaves of
  the key and of the value; when both are at most \<open>0x7ffff000\<close> bytes, that is the
  record of the key and the value.
\<close>

theorem set_store_frame:
  "set_store st fs name data =
     (Inr (), st, Some (log_of fs @ written_str name @ written_str data))
   \<and> (writable_str name \<and> writable_str data \<longrightarrow>
        written_str name @ written_str data = encode_record (name, data))"
  by (simp add: set_store_written written_str_writable encode_record_def)

theorem set_store_frame_witness:
  "writable_str ''key0'' \<and> writable_str ''value0''
   \<and> set_store FileStore_new None ''key0'' ''value0'' =
       (Inr (), FileStore_new, Some (encode_record (''key0'', ''value0'')))"
  using set_store_frame [of FileStore_new None "''key0''" "''value0''"]
  by simp




text \<open>
  \<^bold>\<open>C10.\<close>  When no file exists at the path, \<open>get\<close> of a key that is not in the cache
  and \<open>check\<close> of any keys throw the I/O error of the read-only open at once, and leave
  the instance unchanged; \<open>set\<close> and \<open>add\<close> leave a file behind (after \<open>set\<close>, one
  holding what \<open>writeString\<close> leaves of the key and of the value).
\<close>

theorem missing_log_io_error:
  "cache st key = None \<Longrightarrow>
     get st (None # world) key = (Some (Inl IoError), st)
     \<and> check st None keys = (Inl IoError, st)
     \<and> snd (snd (set_store st None name data)) = Some (written_str name @ written_str data)
     \<and> snd (snd (add st None name i)) \<noteq> None"
proof (intro conjI)
  assume "cache st key = None"
  then show "get st (None # world) key = (Some (Inl IoError), st)"
    by (subst get.simps) (simp add: open_file_RDONLY_None)
  show "check st None keys = (Inl IoError, st)"
    by (simp add: check_def open_file_RDONLY_None)
  show "snd (snd (set_store st None name data)) = Some (written_str name @ written_str data)"
    by (simp add: set_store_written log_of_def)
  show "snd (snd (add st None name i)) \<noteq> None"
    by (simp add: add_def open_file_RDWR size_file_eq seek_def Let_def log_of_def
          split: prod.splits option.splits sum.splits)
qed

theorem missing_log_io_error_witness:
  "cache FileStore_new ''k'' = None
   \<and> get FileStore_new [None] ''k'' = (Some (Inl IoError), FileStore_new)
   \<and> check FileStore_new None [''k''] = (Inl IoError, FileStore_new)
   \<and> snd (snd (set_store FileStore_new None ''k'' ''v'')) = Some (encode_record (''k'', ''v''))
   \<and> snd (snd (add FileStore_new None ''k'' 1)) \<noteq> None"
proof -
  have h: "cache FileStore_new ''k'' = None"
    by (simp add: FileStore_new_def)
  show ?thesis
    using h missing_log_io_error [OF h, where world = "[]" and keys = "[''k'']" and name = "''k''"
        and data = "''v''" and i = 1]
    by (simp add: written_str_writable encode_record_def)
qed

end
